theory Spec2Isabelle
  imports Main "HOL-Library.Word"
begin

unbundle bit_operations_syntax

section \<open>Bytes and Python's indexing and slicing\<close>

text \<open>
  A Python \<open>bytes\<close> object is a list of 8-bit words. Reading one element gives a
  Python \<open>int\<close> in \<open>0..255\<close>; Python integers are unbounded and are modelled by
  \<open>int\<close>. Indexing accepts a negative index (counted from the end) and raises
  \<open>IndexError\<close> out of range; slicing clamps its bounds and never raises.
\<close>

type_synonym byte = "8 word"
type_synonym bytes = "byte list"

datatype py_error = IndexError | UnicodeDecodeError | ValueError

definition bytes_index :: "bytes \<Rightarrow> int \<Rightarrow> py_error + int" where
  "bytes_index data i =
     (if i < 0
      then (if - int (length data) \<le> i
            then Inr (uint (data ! nat (i + int (length data))))
            else Inl IndexError)
      else (if i < int (length data)
            then Inr (uint (data ! nat i))
            else Inl IndexError))"

definition clamp_bound :: "nat \<Rightarrow> int \<Rightarrow> nat" where
  "clamp_bound n i =
     (if i < 0 then nat (max 0 (i + int n)) else min n (nat i))"

definition bytes_slice :: "bytes \<Rightarrow> int \<Rightarrow> int \<Rightarrow> bytes" where
  "bytes_slice data lo hi =
     take (clamp_bound (length data) hi - clamp_bound (length data) lo)
          (drop (clamp_bound (length data) lo) data)"

section \<open>parse_varint\<close>

text \<open>
  The \<open>while\<close> loop of \<open>parse_varint\<close>, with the loop variables \<open>offset\<close>,
  \<open>result\<close> and \<open>shift\<close> as arguments. \<open>Inl\<close> is an exception leaving the function.
\<close>

function parse_varint_loop :: "bytes \<Rightarrow> int \<Rightarrow> int \<Rightarrow> nat \<Rightarrow> py_error + (int \<times> int)" where
  "parse_varint_loop data offset result shift =
     (if offset < int (length data)
      then (case bytes_index data offset of
              Inl e \<Rightarrow> Inl e
            | Inr byte \<Rightarrow>
                (if byte AND 0x80 = 0
                 then Inr (result OR push_bit shift (byte AND 0x7F), offset + 1)
                 else parse_varint_loop data (offset + 1)
                        (result OR push_bit shift (byte AND 0x7F)) (shift + 7)))
      else Inr (result, offset))"
  by pat_completeness auto
termination
  by (relation "measure (\<lambda>(data, offset, result, shift). nat (int (length data) - offset))") auto

declare parse_varint_loop.simps [simp del]

definition parse_varint :: "bytes \<Rightarrow> int \<Rightarrow> py_error + (int \<times> int)" where
  "parse_varint data offset = parse_varint_loop data offset 0 0"

text \<open>
  Each iteration of the loop moves the offset forward, and the accumulated value of
  a run that starts at a non-negative accumulator is non-negative. Both facts are
  needed for the termination of the field scanner below.
\<close>

lemma parse_varint_loop_offset:
  "parse_varint_loop data offset result shift = Inr (v, offset') \<Longrightarrow>
     offset \<le> offset' \<and> (offset < int (length data) \<longrightarrow> offset < offset')"
proof (induction data offset result shift rule: parse_varint_loop.induct)
  case (1 data offset result shift)
  note run = "1.prems" [unfolded parse_varint_loop.simps [of data offset result shift]]
  show ?case
  proof (cases "offset < int (length data)")
    case False
    with run show ?thesis by simp
  next
    case True
    show ?thesis
    proof (cases "bytes_index data offset")
      case (Inl e)
      with True run show ?thesis by simp
    next
      case (Inr byte)
      show ?thesis
      proof (cases "byte AND 0x80 = 0")
        case z: True
        with True Inr run show ?thesis by simp
      next
        case nz: False
        with True Inr run have
          "parse_varint_loop data (offset + 1)
             (result OR push_bit shift (byte AND 0x7F)) (shift + 7) = Inr (v, offset')"
          by simp
        from "1.IH" [OF True Inr nz this] show ?thesis by simp
      qed
    qed
  qed
qed

lemma parse_varint_loop_nonneg:
  "parse_varint_loop data offset result shift = Inr (v, offset') \<Longrightarrow> 0 \<le> result \<Longrightarrow> 0 \<le> v"
proof (induction data offset result shift rule: parse_varint_loop.induct)
  case (1 data offset result shift)
  note run = "1.prems"(1) [unfolded parse_varint_loop.simps [of data offset result shift]]
  show ?case
  proof (cases "offset < int (length data)")
    case False
    with run "1.prems"(2) show ?thesis by simp
  next
    case True
    show ?thesis
    proof (cases "bytes_index data offset")
      case (Inl e)
      with True run show ?thesis by simp
    next
      case (Inr byte)
      have b: "0 \<le> result OR push_bit shift (byte AND 0x7F)"
        using "1.prems"(2) by simp
      show ?thesis
      proof (cases "byte AND 0x80 = 0")
        case z: True
        with True Inr run b show ?thesis by simp
      next
        case nz: False
        with True Inr run have
          "parse_varint_loop data (offset + 1)
             (result OR push_bit shift (byte AND 0x7F)) (shift + 7) = Inr (v, offset')"
          by simp
        from "1.IH" [OF True Inr nz this b] show ?thesis .
      qed
    qed
  qed
qed

lemma parse_varint_forward:
  "parse_varint data offset = Inr (v, offset') \<Longrightarrow> offset < int (length data) \<Longrightarrow> offset < offset'"
  unfolding parse_varint_def by (drule parse_varint_loop_offset) simp

lemma parse_varint_mono:
  "parse_varint data offset = Inr (v, offset') \<Longrightarrow> offset \<le> offset'"
  unfolding parse_varint_def by (drule parse_varint_loop_offset) simp

lemma parse_varint_nonneg:
  "parse_varint data offset = Inr (v, offset') \<Longrightarrow> 0 \<le> v"
  unfolding parse_varint_def by (drule parse_varint_loop_nonneg) simp_all

section \<open>parse_proto_fields\<close>

text \<open>
  A scanned field is the tuple \<open>(field_number, wire_type, value)\<close>; the value is an
  \<open>int\<close> for a varint field and a \<open>bytes\<close> object for a length-delimited one.
\<close>

datatype wire_value = VInt int | VBytes bytes

type_synonym wire_field = "int \<times> int \<times> wire_value"

text \<open>
  The \<open>while\<close> loop of \<open>parse_proto_fields\<close>. The loop variables are \<open>offset\<close> and
  the list \<open>fields\<close>. Every \<open>break\<close>, and the \<open>except Exception: break\<close> around
  the loop body, leaves the loop with the fields collected so far.
\<close>

function fields_loop :: "bytes \<Rightarrow> int \<Rightarrow> wire_field list \<Rightarrow> wire_field list" where
  "fields_loop data offset fields =
     (if offset < int (length data)
      then (case parse_varint data offset of
              Inl e \<Rightarrow> fields
            | Inr (tag, offset1) \<Rightarrow>
                (if tag AND 0x07 = 0
                 then (case parse_varint data offset1 of
                         Inl e \<Rightarrow> fields
                       | Inr (val, offset2) \<Rightarrow>
                           fields_loop data offset2
                             (fields @ [(drop_bit 3 tag, tag AND 0x07, VInt val)]))
                 else if tag AND 0x07 = 2
                 then (case parse_varint data offset1 of
                         Inl e \<Rightarrow> fields
                       | Inr (len, offset2) \<Rightarrow>
                           (if offset2 + len > int (length data)
                            then fields
                            else fields_loop data (offset2 + len)
                                   (fields @ [(drop_bit 3 tag, tag AND 0x07,
                                               VBytes (bytes_slice data offset2 (offset2 + len)))])))
                 else if tag AND 0x07 = 1
                 then fields_loop data (offset1 + 8) fields
                 else if tag AND 0x07 = 5
                 then fields_loop data (offset1 + 4) fields
                 else fields))
      else fields)"
  by pat_completeness auto
termination
proof (relation "measure (\<lambda>(data, offset, fields). nat (int (length data) - offset))")
  show "wf (measure (\<lambda>(data, offset, fields). nat (int (length data) - offset)))"
    by simp
next
  fix data :: bytes and offset :: int and fields :: "wire_field list"
    and x2 :: "int \<times> int" and tag offset1 :: int and x2a :: "int \<times> int" and val offset2 :: int
  assume "offset < int (length data)" "parse_varint data offset = Inr x2" "(tag, offset1) = x2"
    "parse_varint data offset1 = Inr x2a" "(val, offset2) = x2a"
  then have "offset < offset1" "offset1 \<le> offset2"
    using parse_varint_forward [of data offset tag offset1]
      parse_varint_mono [of data offset1 val offset2] by auto
  with \<open>offset < int (length data)\<close>
  show "((data, offset2, fields @ [(drop_bit 3 tag, tag AND 0x07, VInt val)]), data, offset, fields)
          \<in> measure (\<lambda>(data, offset, fields). nat (int (length data) - offset))"
    by simp
next
  fix data :: bytes and offset :: int and fields :: "wire_field list"
    and x2 :: "int \<times> int" and tag offset1 :: int and x2a :: "int \<times> int" and len offset2 :: int
  assume "offset < int (length data)" "parse_varint data offset = Inr x2" "(tag, offset1) = x2"
    "parse_varint data offset1 = Inr x2a" "(len, offset2) = x2a"
  then have "offset < offset1" "offset1 \<le> offset2" "0 \<le> len"
    using parse_varint_forward [of data offset tag offset1]
      parse_varint_mono [of data offset1 len offset2]
      parse_varint_nonneg [of data offset1 len offset2] by auto
  with \<open>offset < int (length data)\<close>
  show "((data, offset2 + len,
          fields @ [(drop_bit 3 tag, tag AND 0x07, VBytes (bytes_slice data offset2 (offset2 + len)))]),
         data, offset, fields)
          \<in> measure (\<lambda>(data, offset, fields). nat (int (length data) - offset))"
    by simp
next
  fix data :: bytes and offset :: int and fields :: "wire_field list"
    and x2 :: "int \<times> int" and tag offset1 :: int
  assume "offset < int (length data)" "parse_varint data offset = Inr x2" "(tag, offset1) = x2"
  then have "offset < offset1"
    using parse_varint_forward [of data offset tag offset1] by auto
  with \<open>offset < int (length data)\<close>
  show "((data, offset1 + 8, fields), data, offset, fields)
          \<in> measure (\<lambda>(data, offset, fields). nat (int (length data) - offset))"
    by simp
next
  fix data :: bytes and offset :: int and fields :: "wire_field list"
    and x2 :: "int \<times> int" and tag offset1 :: int
  assume "offset < int (length data)" "parse_varint data offset = Inr x2" "(tag, offset1) = x2"
  then have "offset < offset1"
    using parse_varint_forward [of data offset tag offset1] by auto
  with \<open>offset < int (length data)\<close>
  show "((data, offset1 + 4, fields), data, offset, fields)
          \<in> measure (\<lambda>(data, offset, fields). nat (int (length data) - offset))"
    by simp
qed

declare fields_loop.simps [simp del]

definition parse_proto_fields :: "bytes \<Rightarrow> wire_field list" where
  "parse_proto_fields data = fields_loop data 0 []"
section \<open>Strings\<close>

text \<open>
  A Python \<open>str\<close> is a sequence of Unicode code points. \<open>bytes.decode('utf-8')\<close>
  is the strict UTF-8 decoder of the Python runtime: it accepts exactly the well-formed
  sequences (shortest form, no surrogates, nothing above \<open>U+10FFFF\<close>) and raises
  \<open>UnicodeDecodeError\<close> on everything else. The tool and argument names of the
  module are ASCII literals and are kept as \<open>string\<close>.
\<close>

type_synonym py_str = "nat list"

definition ascii :: "string \<Rightarrow> py_str" where
  "ascii s = map of_char s"

definition between :: "byte \<Rightarrow> byte \<Rightarrow> byte \<Rightarrow> bool" where
  "between lo hi b = (lo \<le> b \<and> b \<le> hi)"

definition second_lo :: "byte \<Rightarrow> byte" where
  "second_lo b0 = (if b0 = 0xE0 then 0xA0 else if b0 = 0xF0 then 0x90 else 0x80)"

definition second_hi :: "byte \<Rightarrow> byte" where
  "second_hi b0 = (if b0 = 0xED then 0x9F else if b0 = 0xF4 then 0x8F else 0xBF)"

fun utf8_decode :: "bytes \<Rightarrow> py_error + py_str" where
  "utf8_decode [] = Inr []"
| "utf8_decode (b0 # rest) =
     (if b0 < 0x80
      then map_sum id ((#) (unat b0)) (utf8_decode rest)
      else if between 0xC2 0xDF b0
      then (case rest of
              b1 # r1 \<Rightarrow>
                (if between 0x80 0xBF b1
                 then map_sum id ((#) ((unat b0 - 0xC0) * 64 + (unat b1 - 0x80))) (utf8_decode r1)
                 else Inl UnicodeDecodeError)
            | _ \<Rightarrow> Inl UnicodeDecodeError)
      else if between 0xE0 0xEF b0
      then (case rest of
              b1 # b2 # r2 \<Rightarrow>
                (if between (second_lo b0) (second_hi b0) b1 \<and> between 0x80 0xBF b2
                 then map_sum id
                        ((#) ((unat b0 - 0xE0) * 4096 + (unat b1 - 0x80) * 64 + (unat b2 - 0x80)))
                        (utf8_decode r2)
                 else Inl UnicodeDecodeError)
            | _ \<Rightarrow> Inl UnicodeDecodeError)
      else if between 0xF0 0xF4 b0
      then (case rest of
              b1 # b2 # b3 # r3 \<Rightarrow>
                (if between (second_lo b0) (second_hi b0) b1 \<and> between 0x80 0xBF b2
                      \<and> between 0x80 0xBF b3
                 then map_sum id
                        ((#) ((unat b0 - 0xF0) * 262144 + (unat b1 - 0x80) * 4096
                              + (unat b2 - 0x80) * 64 + (unat b3 - 0x80)))
                        (utf8_decode r3)
                 else Inl UnicodeDecodeError)
            | _ \<Rightarrow> Inl UnicodeDecodeError)
      else Inl UnicodeDecodeError)"

text \<open>
  \<open>str(n)\<close> for an integer, used by the f-strings \<open>f"field_{afn}"\<close> and
  \<open>f"field_{ufn}"\<close>. The Python runtime converts an integer to a decimal string only
  when it has at most 4300 digits (\<open>sys.int_info.default_max_str_digits\<close>), and
  raises \<open>ValueError\<close> for a longer one.
\<close>

definition max_str_digits :: nat where
  "max_str_digits = 4300"

definition str_limit :: int where
  "str_limit = 10 ^ max_str_digits"

definition digit_char :: "nat \<Rightarrow> char" where
  "digit_char d = char_of (48 + d)"

function digits :: "nat \<Rightarrow> string" where
  "digits n = (if n < 10 then [digit_char n] else digits (n div 10) @ [digit_char (n mod 10)])"
  by pat_completeness auto
termination
  by (relation "measure id") auto

declare digits.simps [simp del]

definition decimal :: "int \<Rightarrow> string" where
  "decimal i = (if i < 0 then CHR ''-'' # digits (nat (- i)) else digits (nat i))"

definition str_int :: "int \<Rightarrow> py_error + string" where
  "str_int i = (if str_limit \<le> \<bar>i\<bar> then Inl ValueError else Inr (decimal i))"

text \<open>\<open>bytes.hex()\<close>: two lower-case hexadecimal digits per byte.\<close>

definition hex_char :: "nat \<Rightarrow> char" where
  "hex_char d = (if d < 10 then char_of (48 + d) else char_of (87 + d))"

definition bytes_hex :: "bytes \<Rightarrow> string" where
  "bytes_hex bs = concat (map (\<lambda>b. [hex_char (unat b div 16), hex_char (unat b mod 16)]) bs)"

section \<open>The field-number tables\<close>

definition TOOL_FIELD_MAP :: "(int \<times> string) list" where
  "TOOL_FIELD_MAP =
    [(1, ''bash''), (3, ''delete''), (4, ''glob''), (5, ''grep''), (8, ''read''),
     (9, ''todowrite''), (10, ''todoread''), (12, ''edit''), (13, ''list''),
     (14, ''read_lints''), (15, ''mcp''), (16, ''semantic_search''), (17, ''create_plan''),
     (18, ''web_search''), (19, ''task''), (20, ''list_mcp_resources''),
     (21, ''read_mcp_resource''), (22, ''apply_diff''), (23, ''ask_question''),
     (24, ''webfetch''), (25, ''switch_mode''), (26, ''exa_search''), (27, ''exa_fetch''),
     (28, ''generate_image''), (29, ''record_screen''), (30, ''computer_use'')]"

definition TOOL_ARG_SCHEMA :: "(string \<times> (int \<times> string) list) list" where
  "TOOL_ARG_SCHEMA =
    [(''bash'', [(1, ''command''), (2, ''description''), (3, ''working_directory'')]),
     (''delete'', [(1, ''filePath'')]),
     (''glob'', [(1, ''pattern''), (2, ''path'')]),
     (''grep'', [(1, ''pattern''), (2, ''path''), (3, ''include'')]),
     (''read'', [(1, ''filePath''), (2, ''offset''), (3, ''limit'')]),
     (''todowrite'', [(1, ''todos'')]),
     (''todoread'', []),
     (''edit'', [(1, ''filePath''), (2, ''oldString''), (3, ''newString''), (4, ''replaceAll'')]),
     (''list'', [(1, ''path''), (2, ''ignore'')]),
     (''read_lints'', []),
     (''mcp'', [(1, ''provider_identifier''), (2, ''tool_name''), (3, ''tool_call_id''),
                (4, ''args'')]),
     (''semantic_search'', [(1, ''query''), (2, ''path'')]),
     (''create_plan'', [(1, ''plan'')]),
     (''web_search'', [(1, ''query'')]),
     (''task'', [(1, ''description''), (2, ''prompt''), (3, ''subagent_type'')]),
     (''list_mcp_resources'', [(1, ''provider_identifier'')]),
     (''read_mcp_resource'', [(1, ''provider_identifier''), (2, ''uri'')]),
     (''apply_diff'', [(1, ''filePath''), (2, ''diff'')]),
     (''ask_question'', [(1, ''question'')]),
     (''webfetch'', [(1, ''url''), (2, ''format'')]),
     (''switch_mode'', [(1, ''mode'')]),
     (''exa_search'', [(1, ''query'')]),
     (''exa_fetch'', [(1, ''url'')]),
     (''generate_image'', [(1, ''prompt'')]),
     (''record_screen'', [(1, ''duration'')]),
     (''computer_use'', [(1, ''action''), (2, ''text''), (3, ''coordinate'')])]"

definition FIELD_NAMES :: "(int \<times> string) list" where
  "FIELD_NAMES =
    [(1, ''text_delta''), (2, ''tool_call_started''), (3, ''tool_call_completed''),
     (4, ''thinking_delta''), (7, ''partial_tool_call''), (8, ''token_delta''),
     (13, ''heartbeat''), (14, ''turn_ended'')]"

text \<open>
  \<open>d.get(k, f"field_{k}")\<close> on one of the tables. The default is an argument of the
  call, so the f-string is built on every lookup, before the table is consulted, and
  its \<open>ValueError\<close> is raised also for a key that the table holds.
\<close>

definition get_name :: "(int \<times> string) list \<Rightarrow> int \<Rightarrow> py_error + string" where
  "get_name table k =
     (case str_int k of
        Inl e \<Rightarrow> Inl e
      | Inr s \<Rightarrow> Inr (case map_of table k of Some name \<Rightarrow> name | None \<Rightarrow> ''field_'' @ s))"

section \<open>parse_tool_call\<close>

text \<open>
  An argument value is a decoded string, an integer, or a boolean (\<open>replaceAll\<close>).
  The \<open>awt == 0\<close> branch stores the scanned value as it is; \<open>ABytes\<close> stands for a
  bytes object stored that way, which the scanner never pairs with wire type 0.
\<close>

datatype arg_value = AStr py_str | AInt int | ABool bool | ABytes bytes

record tool_call =
  tool_name :: string
  args :: "string \<rightharpoonup> arg_value"

text \<open>
  The \<open>for \<dots> else\<close> over the nested fields, inside its \<open>try\<close>: the first nested
  field 1 of wire type 2 is decoded (then \<open>break\<close>); when the loop runs to its end the
  \<open>else\<close> branch decodes the raw bytes. \<open>Inl\<close> is the exception of a failed decode,
  which the bare \<open>except: pass\<close> swallows.
\<close>

fun nested_loop :: "wire_field list \<Rightarrow> bytes \<Rightarrow> py_error + py_str" where
  "nested_loop [] aval = utf8_decode aval"
| "nested_loop ((nfn, nwt, VBytes nval) # rest) aval =
     (if nfn = 1 \<and> nwt = 2 then utf8_decode nval else nested_loop rest aval)"
| "nested_loop ((nfn, nwt, VInt v) # rest) aval = nested_loop rest aval"

text \<open>
  The body of the loop over \<open>arg_fields\<close>: one nested argument field. The name is
  built first, outside the inner \<open>try\<close>; \<open>Inl\<close> is its \<open>ValueError\<close>, which leaves
  the loop.
\<close>

fun coerce :: "string \<Rightarrow> int \<Rightarrow> wire_value \<Rightarrow> (string \<rightharpoonup> arg_value) \<Rightarrow> (string \<rightharpoonup> arg_value)" where
  "coerce arg_name awt (VBytes aval) a =
     (if awt = 2
      then (case nested_loop (parse_proto_fields aval) aval of
              Inl e \<Rightarrow> a
            | Inr s \<Rightarrow> a(arg_name \<mapsto> AStr s))
      else if awt = 0
      then (if arg_name = ''replaceAll''
            then a(arg_name \<mapsto> ABool False)
            else a(arg_name \<mapsto> ABytes aval))
      else a)"
| "coerce arg_name awt (VInt v) a =
     (if awt = 0
      then (if arg_name = ''replaceAll''
            then a(arg_name \<mapsto> ABool (v = 1))
            else a(arg_name \<mapsto> AInt v))
      else a)"

fun arg_step :: "(int \<times> string) list \<Rightarrow> wire_field \<Rightarrow> (string \<rightharpoonup> arg_value) \<Rightarrow> py_error + (string \<rightharpoonup> arg_value)" where
  "arg_step arg_schema (afn, awt, aval) a =
     (case get_name arg_schema afn of
        Inl e \<Rightarrow> Inl e
      | Inr arg_name \<Rightarrow> Inr (coerce arg_name awt aval a))"

text \<open>
  The loop over \<open>arg_fields\<close>. It updates \<open>info["args"]\<close> in place. An exception of
  the body is caught by the \<open>except Exception: pass\<close> of \<open>parse_tool_call\<close>, which
  then returns \<open>info\<close>: the arguments stored before the exception stay, the field
  that raised and all fields after it are not looked at.
\<close>

fun arg_loop :: "(int \<times> string) list \<Rightarrow> wire_field list \<Rightarrow> (string \<rightharpoonup> arg_value) \<Rightarrow> (string \<rightharpoonup> arg_value)" where
  "arg_loop arg_schema [] a = a"
| "arg_loop arg_schema (f # rest) a =
     (case arg_step arg_schema f a of
        Inl e \<Rightarrow> a
      | Inr a' \<Rightarrow> arg_loop arg_schema rest a')"

text \<open>
  The loop over the top-level fields of a ToolCall message. The first field whose
  number has a non-empty name in \<open>TOOL_FIELD_MAP\<close> and whose wire type is 2 sets the
  tool name and the arguments, and the loop ends there (\<open>break\<close>).
\<close>

definition arg_schema_of :: "string \<Rightarrow> (int \<times> string) list" where
  "arg_schema_of name = (case map_of TOOL_ARG_SCHEMA name of Some s \<Rightarrow> s | None \<Rightarrow> [])"

fun tool_loop :: "wire_field list \<Rightarrow> tool_call \<Rightarrow> tool_call" where
  "tool_loop [] info = info"
| "tool_loop ((fn, wt, VBytes val) # rest) info =
     (case map_of TOOL_FIELD_MAP fn of
        Some name \<Rightarrow>
          (if name \<noteq> [] \<and> wt = 2
           then info\<lparr>tool_name := name,
                     args := arg_loop (arg_schema_of name) (parse_proto_fields val) (args info)\<rparr>
           else tool_loop rest info)
      | None \<Rightarrow> tool_loop rest info)"
| "tool_loop ((fn, wt, VInt v) # rest) info = tool_loop rest info"

definition parse_tool_call :: "bytes \<Rightarrow> tool_call" where
  "parse_tool_call data = tool_loop (parse_proto_fields data) \<lparr>tool_name = ''unknown'', args = Map.empty\<rparr>"

section \<open>parse_tool_call_info and parse_partial_tool_call\<close>

text \<open>
  Both functions fill a dictionary whose keys are set only when the matching field
  is met; a key that is absent is \<open>None\<close> here. The keys \<open>tool_name\<close> and \<open>args\<close>
  of this dictionary are the fields \<open>info_tool_name\<close> and \<open>info_args\<close>.
\<close>

record call_info =
  call_id :: "py_str option"
  info_tool_name :: "string option"
  info_args :: "(string \<rightharpoonup> arg_value) option"
  model_call_id :: "py_str option"
  args_delta :: "py_str option"

definition empty_info :: call_info where
  "empty_info = \<lparr>call_id = None, info_tool_name = None, info_args = None,
                  model_call_id = None, args_delta = None\<rparr>"

fun tool_call_info_step :: "wire_field \<Rightarrow> call_info \<Rightarrow> call_info" where
  "tool_call_info_step (fn, wt, VBytes val) info =
     (if fn = 1 \<and> wt = 2
      then (case utf8_decode val of Inl e \<Rightarrow> info | Inr s \<Rightarrow> info\<lparr>call_id := Some s\<rparr>)
      else if fn = 2 \<and> wt = 2
      then info\<lparr>info_tool_name := Some (tool_name (parse_tool_call val)),
                info_args := Some (args (parse_tool_call val))\<rparr>
      else if fn = 3 \<and> wt = 2
      then (case utf8_decode val of Inl e \<Rightarrow> info | Inr s \<Rightarrow> info\<lparr>model_call_id := Some s\<rparr>)
      else info)"
| "tool_call_info_step (fn, wt, VInt v) info = info"

definition parse_tool_call_info :: "bytes \<Rightarrow> call_info" where
  "parse_tool_call_info data = fold tool_call_info_step (parse_proto_fields data) empty_info"

fun partial_tool_call_step :: "wire_field \<Rightarrow> call_info \<Rightarrow> call_info" where
  "partial_tool_call_step (fn, wt, VBytes val) info =
     (if fn = 1 \<and> wt = 2
      then (case utf8_decode val of Inl e \<Rightarrow> info | Inr s \<Rightarrow> info\<lparr>call_id := Some s\<rparr>)
      else if fn = 2 \<and> wt = 2
      then info\<lparr>info_tool_name := Some (tool_name (parse_tool_call val))\<rparr>
      else if fn = 3 \<and> wt = 2
      then (case utf8_decode val of Inl e \<Rightarrow> info | Inr s \<Rightarrow> info\<lparr>args_delta := Some s\<rparr>)
      else if fn = 4 \<and> wt = 2
      then (case utf8_decode val of Inl e \<Rightarrow> info | Inr s \<Rightarrow> info\<lparr>model_call_id := Some s\<rparr>)
      else info)"
| "partial_tool_call_step (fn, wt, VInt v) info = info"

definition parse_partial_tool_call :: "bytes \<Rightarrow> call_info" where
  "parse_partial_tool_call data = fold partial_tool_call_step (parse_proto_fields data) empty_info"

section \<open>parse_agent_message_detailed\<close>

text \<open>
  An event is the dictionary \<open>{"type": \<dots>, "content": \<dots>}\<close>, with the key
  \<open>raw_hex\<close> for the tool-call events. The content is a string, a dictionary of one
  of the two functions above, or \<open>None\<close>.
\<close>

datatype event_content = CText py_str | CInfo call_info | CNone

record event =
  etype :: string
  content :: event_content
  raw_hex :: "string option"

text \<open>
  The innermost loop, over the fields of the wrapper of a text update: a
  length-delimited field 1 is decoded, and appended when the text is not empty
  (\<open>if text:\<close>); a failed decode is swallowed.
\<close>

fun text_step :: "string \<Rightarrow> wire_field \<Rightarrow> event list \<Rightarrow> event list" where
  "text_step field_name (ifn, iwt, VBytes ival) results =
     (if ifn = 1 \<and> iwt = 2
      then (case utf8_decode ival of
              Inl e \<Rightarrow> results
            | Inr s \<Rightarrow>
                (if s \<noteq> []
                 then results @ [\<lparr>etype = field_name, content = CText s, raw_hex = None\<rparr>]
                 else results))
      else results)"
| "text_step field_name (ifn, iwt, VInt v) results = results"

text \<open>
  The body of the loop over the fields of one InteractionUpdate. The name of the field
  is built first; \<open>Inl\<close> is the \<open>ValueError\<close> of its f-string, raised before
  anything is appended.
\<close>

fun emit :: "string \<Rightarrow> wire_field \<Rightarrow> event list \<Rightarrow> event list" where
  "emit field_name (ufn, uwt, VBytes uval) results =
     (if ufn \<in> {1, 4, 8} \<and> uwt = 2
      then fold (text_step field_name) (parse_proto_fields uval) results
      else if ufn \<in> {2, 3} \<and> uwt = 2
      then results @ [\<lparr>etype = field_name,
                        content = CInfo (parse_tool_call_info uval),
                        raw_hex = Some (bytes_hex uval)\<rparr>]
      else if ufn = 7 \<and> uwt = 2
      then results @ [\<lparr>etype = field_name,
                        content = CInfo (parse_partial_tool_call uval),
                        raw_hex = Some (bytes_hex uval)\<rparr>]
      else if ufn = 13
      then results @ [\<lparr>etype = ''heartbeat'', content = CNone, raw_hex = None\<rparr>]
      else if ufn = 14
      then results @ [\<lparr>etype = ''turn_ended'', content = CNone, raw_hex = None\<rparr>]
      else results)"
| "emit field_name (ufn, uwt, VInt v) results =
     (if ufn = 13
      then results @ [\<lparr>etype = ''heartbeat'', content = CNone, raw_hex = None\<rparr>]
      else if ufn = 14
      then results @ [\<lparr>etype = ''turn_ended'', content = CNone, raw_hex = None\<rparr>]
      else results)"

fun update_step :: "wire_field \<Rightarrow> event list \<Rightarrow> py_error + event list" where
  "update_step (ufn, uwt, uval) results =
     (case get_name FIELD_NAMES ufn of
        Inl e \<Rightarrow> Inl e
      | Inr field_name \<Rightarrow> Inr (emit field_name (ufn, uwt, uval) results))"

text \<open>
  The two nested loops of \<open>parse_agent_message_detailed\<close>. They append to
  \<open>results\<close> in place. An exception of the inner body leaves both loops for the
  \<open>except Exception: pass\<close> of the function, which returns the results appended so
  far: the first component says whether that happened.
\<close>

fun update_loop :: "wire_field list \<Rightarrow> event list \<Rightarrow> py_error option \<times> event list" where
  "update_loop [] results = (None, results)"
| "update_loop (f # rest) results =
     (case update_step f results of
        Inl e \<Rightarrow> (Some e, results)
      | Inr results' \<Rightarrow> update_loop rest results')"




section \<open>The frame loop of modify_stream and analyze_grpc_stream\<close>

text \<open>\<open>int.from_bytes(bs, 'big')\<close>.\<close>

definition int_from_bytes_big :: "bytes \<Rightarrow> int" where
  "int_from_bytes_big bs = foldl (\<lambda>acc b. acc * 256 + uint b) 0 bs"

lemma foldl_from_bytes_nonneg: "0 \<le> acc \<Longrightarrow> 0 \<le> foldl (\<lambda>acc b. acc * 256 + uint (b::byte)) acc bs"
  by (induction bs arbitrary: acc) simp_all

lemma int_from_bytes_big_nonneg: "0 \<le> int_from_bytes_big bs"
  unfolding int_from_bytes_big_def by (rule foldl_from_bytes_nonneg) simp

text \<open>
  Both functions split their argument into frames with the same loop: one flag byte,
  a four-byte big-endian length, the payload. The loop stops at the first frame that
  is not complete in \<open>data\<close>. \<open>grpc_frames_loop\<close> is that loop, collecting the pair
  \<open>(flags, frame_data)\<close> of each iteration.
\<close>

function grpc_frames_loop :: "bytes \<Rightarrow> int \<Rightarrow> (int \<times> bytes) list \<Rightarrow> (int \<times> bytes) list" where
  "grpc_frames_loop data offset frames =
     (if offset + 5 \<le> int (length data)
      then (case bytes_index data offset of
              Inl e \<Rightarrow> frames
            | Inr flags \<Rightarrow>
                (if offset + 5 + int_from_bytes_big (bytes_slice data (offset + 1) (offset + 5))
                      > int (length data)
                 then frames
                 else grpc_frames_loop data
                        (offset + (5 + int_from_bytes_big (bytes_slice data (offset + 1) (offset + 5))))
                        (frames @ [(flags,
                            bytes_slice data (offset + 5)
                              (offset + 5 + int_from_bytes_big (bytes_slice data (offset + 1) (offset + 5))))])))
      else frames)"
  by pat_completeness auto
termination
proof (relation "measure (\<lambda>(data, offset, frames). nat (int (length data) - offset))")
  show "wf (measure (\<lambda>(data, offset, frames). nat (int (length data) - offset)))"
    by simp
next
  fix data :: bytes and offset :: int and frames :: "(int \<times> bytes) list" and flags :: int
  let ?n = "int_from_bytes_big (bytes_slice data (offset + 1) (offset + 5))"
  assume "offset + 5 \<le> int (length data)"
  moreover have "0 \<le> ?n" by (rule int_from_bytes_big_nonneg)
  ultimately
  show "((data, offset + (5 + ?n),
          frames @ [(flags, bytes_slice data (offset + 5) (offset + 5 + ?n))]),
         data, offset, frames)
          \<in> measure (\<lambda>(data, offset, frames). nat (int (length data) - offset))"
    by simp
qed

declare grpc_frames_loop.simps [simp del]

definition grpc_frames :: "bytes \<Rightarrow> (int \<times> bytes) list" where
  "grpc_frames data = grpc_frames_loop data 0 []"








section \<open>The protobuf wire encoding\<close>

text \<open>
  The repository only decodes. The properties below speak of validly encoded
  varints and messages, so the standard protobuf wire encoding is written out here:
  a varint is the base-128 little-endian digits of the value, every byte but the last
  carrying the continuation bit \<open>0x80\<close>.
\<close>

function encode_varint :: "nat \<Rightarrow> bytes" where
  "encode_varint v =
     (if v < 128 then [of_nat v]
      else (of_nat (v mod 128) OR 0x80) # encode_varint (v div 128))"
  by pat_completeness auto
termination
  by (relation "measure id") auto

declare encode_varint.simps [simp del]

text \<open>
  The value a run of bytes accumulates in \<open>parse_varint\<close>: the low seven bits of
  each byte, the first byte least significant.
\<close>

fun accumulated :: "bytes \<Rightarrow> int" where
  "accumulated [] = 0"
| "accumulated (b # bs) = (uint b AND 0x7F) OR push_bit 7 (accumulated bs)"

text \<open>
  A message is a sequence of fields. Each field starts with the varint tag
  \<open>(field_number << 3) | wire_type\<close>; a varint field (wire type 0) continues with the
  varint value, a length-delimited field (wire type 2) with the varint length and the
  payload, a fixed64 field (wire type 1) with eight bytes and a fixed32 field
  (wire type 5) with four bytes, both little-endian.
\<close>

datatype field =
    FVarint nat nat
  | FLenDelim nat bytes
  | FFixed64 nat "64 word"
  | FFixed32 nat "32 word"

definition le_bytes :: "nat \<Rightarrow> 'a::len word \<Rightarrow> bytes" where
  "le_bytes n w = map (\<lambda>i. ucast (drop_bit (8 * i) w)) [0..<n]"

definition encode_tag :: "nat \<Rightarrow> nat \<Rightarrow> bytes" where
  "encode_tag field_number wire_type = encode_varint (field_number * 8 + wire_type)"

fun encode_field :: "field \<Rightarrow> bytes" where
  "encode_field (FVarint n v) = encode_tag n 0 @ encode_varint v"
| "encode_field (FLenDelim n payload) = encode_tag n 2 @ encode_varint (length payload) @ payload"
| "encode_field (FFixed64 n w) = encode_tag n 1 @ le_bytes 8 w"
| "encode_field (FFixed32 n w) = encode_tag n 5 @ le_bytes 4 w"

definition encode_message :: "field list \<Rightarrow> bytes" where
  "encode_message fs = concat (map encode_field fs)"

text \<open>
  The tuples \<open>parse_proto_fields\<close> appends for one encoded field: one tuple for a
  varint or a length-delimited field, none for a fixed-width field (the scanner only
  moves the offset over it).
\<close>

fun emitted :: "field \<Rightarrow> wire_field list" where
  "emitted (FVarint n v) = [(int n, 0, VInt (int v))]"
| "emitted (FLenDelim n payload) = [(int n, 2, VBytes payload)]"
| "emitted (FFixed64 n w) = []"
| "emitted (FFixed32 n w) = []"

text \<open>
  What holds of every tuple the scanner produces: the field number is not negative,
  and the wire type is 0 with an integer value or 2 with a bytes value.
\<close>

fun well_formed :: "wire_field \<Rightarrow> bool" where
  "well_formed (n, wt, VInt x) = (0 \<le> n \<and> wt = 0 \<and> 0 \<le> x)"
| "well_formed (n, wt, VBytes p) = (0 \<le> n \<and> wt = 2)"

text \<open>The fields of a message that the scanner reports.\<close>

fun scanned :: "field \<Rightarrow> bool" where
  "scanned (FVarint n v) = True"
| "scanned (FLenDelim n payload) = True"
| "scanned (FFixed64 n w) = False"
| "scanned (FFixed32 n w) = False"

text \<open>
  The name a table gives a field number when the fallback name can be formatted.
\<close>

definition name_of :: "(int \<times> string) list \<Rightarrow> int \<Rightarrow> string" where
  "name_of table k = (case map_of table k of Some name \<Rightarrow> name | None \<Rightarrow> ''field_'' @ decimal k)"


text \<open>
  The payloads of the length-delimited fields number 1 of a scanned sub-message, in
  encoding order.
\<close>

definition string_fields :: "wire_field list \<Rightarrow> bytes list" where
  "string_fields nested = [b. (n, w, VBytes b) \<leftarrow> nested, n = 1 \<and> w = 2]"









section \<open>Properties of parse_varint\<close>

lemma and_7F: "(x::int) AND 0x7F = take_bit 7 x"
  by (simp add: take_bit_eq_mask mask_eq_exp_minus_1)

lemma and_80: "(x::int) AND 0x80 = 0 \<longleftrightarrow> \<not> bit x 7"
  using and_exp_eq_0_iff_not_bit [of x 7] by simp

lemma uint_small: "v < 128 \<Longrightarrow> uint (of_nat v :: byte) = int v"
  by (simp add: uint_nat unat_of_nat)

lemma small_bit7: "v < 128 \<Longrightarrow> \<not> bit (int v) 7"
  by (simp add: bit_iff_odd)

lemma small_take7: "v < 128 \<Longrightarrow> take_bit 7 (int v) = int v"
  by (simp add: take_bit_eq_mod)

lemma uint_cont: "uint (of_nat (v mod 128) OR 0x80 :: byte) = int (v mod 128) OR 2 ^ 7"
proof -
  have "uint (of_nat (v mod 128) :: byte) = int (v mod 128)"
    by (rule uint_small) simp
  moreover have "uint (0x80 :: byte) = 2 ^ 7" by simp
  ultimately show ?thesis by (simp only: uint_or)
qed

lemma cont_bit7: "bit (int (v mod 128) OR 2 ^ 7) 7"
  by (simp only: bit_or_iff bit_exp_iff) simp

lemma cont_take7: "take_bit 7 (int (v mod 128) OR 2 ^ 7) = int (v mod 128)"
proof -
  have "take_bit 7 (int (v mod 128)) = int (v mod 128)" by (rule small_take7) simp
  moreover have "take_bit 7 ((2::int) ^ 7) = 0" by simp
  ultimately show ?thesis by (simp only: take_bit_or) simp
qed

lemma base128_split:
  "push_bit s (int (v mod 128)) OR push_bit (s + 7) (int (v div 128)) = push_bit s (int v)"
proof -
  have a: "int (v mod 128) = take_bit 7 (int v)" by (simp add: take_bit_eq_mod zmod_int)
  have b: "int (v div 128) = drop_bit 7 (int v)" by (simp add: drop_bit_eq_div zdiv_int)
  show ?thesis unfolding a b
  proof (rule bit_eqI)
    fix n
    show "bit (push_bit s (take_bit 7 (int v)) OR push_bit (s + 7) (drop_bit 7 (int v))) n
            = bit (push_bit s (int v)) n"
    proof (cases "n - s < 7")
      case True
      then show ?thesis by (auto simp add: bit_simps)
    next
      case False
      then have "7 + (n - (s + 7)) = n - s" "s + 7 \<le> n" "s \<le> n" by simp_all
      with False show ?thesis by (auto simp add: bit_simps)
    qed
  qed
qed

lemma bytes_index_append:
  "bytes_index (pre @ b # rest) (int (length pre)) = Inr (uint b)"
  by (simp add: bytes_index_def)

lemma last_byte:
  assumes "v < 128"
  shows "uint (of_nat v :: byte) AND 0x80 = 0" and "uint (of_nat v :: byte) AND 0x7F = int v"
  using assms by (simp_all add: and_80 and_7F uint_small small_bit7 small_take7)

lemma cont_byte:
  shows "uint (of_nat (v mod 128) OR 0x80 :: byte) AND 0x80 \<noteq> 0"
    and "uint (of_nat (v mod 128) OR 0x80 :: byte) AND 0x7F = int (v mod 128)"
  by (simp_all only: and_80 and_7F uint_cont cont_bit7 cont_take7) simp_all

lemma or_chunks:
  "(r OR push_bit s (int (v mod 128))) OR push_bit (s + 7) (int (v div 128)) = r OR push_bit s (int v)"
  by (simp only: or.assoc base128_split)

lemma parse_varint_loop_encode:
  "parse_varint_loop (pre @ encode_varint v @ post) (int (length pre)) r s
     = Inr (r OR push_bit s (int v), int (length pre) + int (length (encode_varint v)))"
proof (induction v arbitrary: pre r s rule: encode_varint.induct)
  case (1 v)
  show ?case
  proof (cases "v < 128")
    case True
    then have e: "encode_varint v = [of_nat v]" by (simp add: encode_varint.simps)
    show ?thesis
      unfolding e
      by (subst parse_varint_loop.simps) (simp add: bytes_index_append last_byte [OF True])
  next
    case False
    define b :: byte where "b = of_nat (v mod 128) OR 0x80"
    from False have e: "encode_varint v = b # encode_varint (v div 128)"
      by (simp add: encode_varint.simps [of v] b_def)
    have ih: "parse_varint_loop ((pre @ [b]) @ encode_varint (v div 128) @ post)
                (int (length (pre @ [b]))) (r OR push_bit s (int (v mod 128))) (s + 7)
              = Inr ((r OR push_bit s (int (v mod 128))) OR push_bit (s + 7) (int (v div 128)),
                     int (length (pre @ [b])) + int (length (encode_varint (v div 128))))"
      by (rule "1.IH" [OF False])
    have step: "parse_varint_loop (pre @ b # encode_varint (v div 128) @ post) (int (length pre)) r s
          = parse_varint_loop (pre @ b # encode_varint (v div 128) @ post) (int (length pre) + 1)
              (r OR push_bit s (int (v mod 128))) (s + 7)"
      by (subst parse_varint_loop.simps)
        (simp add: bytes_index_append cont_byte [of v, folded b_def])
    show ?thesis
      unfolding e using ih by (simp add: step or_chunks add.commute)
  qed
qed

lemma parse_varint_encode:
  "parse_varint (pre @ encode_varint v @ post) (int (length pre))
     = Inr (int v, int (length pre) + int (length (encode_varint v)))"
  unfolding parse_varint_def using parse_varint_loop_encode [of pre v post 0 0] by simp

lemma parse_varint_loop_exhausted:
  "\<forall>b\<in>set suf. uint b AND 0x80 \<noteq> 0 \<Longrightarrow>
   parse_varint_loop (pre @ suf) (int (length pre)) r s
     = Inr (r OR push_bit s (accumulated suf), int (length pre) + int (length suf))"
proof (induction suf arbitrary: pre r s)
  case Nil
  show ?case by (subst parse_varint_loop.simps) simp
next
  case (Cons b suf)
  from Cons.prems have hb: "uint b AND 0x80 \<noteq> 0" and rest: "\<forall>b\<in>set suf. uint b AND 0x80 \<noteq> 0"
    by simp_all
  have ih: "parse_varint_loop ((pre @ [b]) @ suf) (int (length (pre @ [b])))
              (r OR push_bit s (uint b AND 0x7F)) (s + 7)
            = Inr ((r OR push_bit s (uint b AND 0x7F)) OR push_bit (s + 7) (accumulated suf),
                   int (length (pre @ [b])) + int (length suf))"
    by (rule Cons.IH [OF rest])
  have step: "parse_varint_loop (pre @ b # suf) (int (length pre)) r s
          = parse_varint_loop (pre @ b # suf) (int (length pre) + 1)
              (r OR push_bit s (uint b AND 0x7F)) (s + 7)"
    by (subst parse_varint_loop.simps) (simp add: bytes_index_append hb)
  show ?case using ih by (simp add: step or.assoc add.commute)
qed

lemma parse_varint_exhausted_at:
  "\<forall>b\<in>set suf. uint b AND 0x80 \<noteq> 0 \<Longrightarrow>
   parse_varint (pre @ suf) (int (length pre))
     = Inr (accumulated suf, int (length pre) + int (length suf))"
  unfolding parse_varint_def using parse_varint_loop_exhausted [of suf pre 0 0] by simp

lemma parse_varint_loop_total:
  "0 \<le> offset \<Longrightarrow> \<exists>v offset'. parse_varint_loop data offset result shift = Inr (v, offset')"
proof (induction data offset result shift rule: parse_varint_loop.induct)
  case (1 data offset result shift)
  show ?case
  proof (cases "offset < int (length data)")
    case False
    then show ?thesis by (subst parse_varint_loop.simps) simp
  next
    case True
    with "1.prems" have ix: "bytes_index data offset = Inr (uint (data ! nat offset))"
      by (simp add: bytes_index_def)
    show ?thesis
    proof (cases "uint (data ! nat offset) AND 0x80 = 0")
      case z: True
      with True ix show ?thesis by (subst parse_varint_loop.simps) simp
    next
      case nz: False
      from "1.prems" have "0 \<le> offset + 1" by simp
      from "1.IH" [OF True ix nz this] True ix nz show ?thesis
        by (subst parse_varint_loop.simps) simp
    qed
  qed
qed

lemma parse_varint_total:
  "0 \<le> offset \<Longrightarrow> \<exists>v offset'. parse_varint data offset = Inr (v, offset')"
  unfolding parse_varint_def by (rule parse_varint_loop_total)

lemma parse_varint_past_end:
  "int (length data) \<le> offset \<Longrightarrow> parse_varint data offset = Inr (0, offset)"
  unfolding parse_varint_def by (subst parse_varint_loop.simps) simp

text \<open>
  C8 (varint round-trip). Encoding a value as a standard protobuf varint and decoding
  it with \<open>parse_varint\<close> gives the value back, and the returned offset is the position
  just past the encoding. Python integers are unbounded, so this holds for every
  natural number \<open>v\<close>, in particular for every \<open>v\<close> in \<open>[0, 2^35)\<close>, and wherever
  the encoding stands in a buffer.
\<close>

theorem varint_round_trip:
  "parse_varint (encode_varint v) 0 = Inr (int v, int (length (encode_varint v)))
   \<and> parse_varint (pre @ encode_varint v @ post) (int (length pre))
       = Inr (int v, int (length pre) + int (length (encode_varint v)))"
  using parse_varint_encode [of "[]" v "[]"] parse_varint_encode [of pre v post] by simp

theorem varint_round_trip_witness:
  "parse_varint (encode_varint 34359738367) 0 = Inr (34359738367, 5)
   \<and> encode_varint 34359738367 = [0xFF, 0xFF, 0xFF, 0xFF, 0x7F]"
  using varint_round_trip [of 34359738367 "[]" "[]"] by (simp add: encode_varint.simps)

text \<open>
  C3 (varint decoding on buffer exhaustion), as amended. For a start offset inside
  the buffer or at its end (\<open>0 \<le> offset \<le> len(data)\<close>), if no byte from the offset
  on has the high bit clear, \<open>parse_varint\<close> returns the value accumulated from those
  bytes together with the end-of-buffer offset. For every non-negative start offset
  it returns a result and raises nothing; a start offset at or past the end is
  returned unchanged with the value 0.
\<close>

theorem parse_varint_exhaustion:
  assumes "0 \<le> offset"
  shows "(\<exists>v offset'. parse_varint data offset = Inr (v, offset'))
    \<and> (offset \<le> int (length data) \<longrightarrow>
         (\<forall>b\<in>set (drop (nat offset) data). uint b AND 0x80 \<noteq> 0) \<longrightarrow>
         parse_varint data offset = Inr (accumulated (drop (nat offset) data), int (length data)))
    \<and> (int (length data) \<le> offset \<longrightarrow> parse_varint data offset = Inr (0, offset))"
proof (intro conjI impI)
  show "\<exists>v offset'. parse_varint data offset = Inr (v, offset')"
    using assms by (rule parse_varint_total)
next
  assume le: "offset \<le> int (length data)"
    and cont: "\<forall>b\<in>set (drop (nat offset) data). uint b AND 0x80 \<noteq> 0"
  from assms le have len: "length (take (nat offset) data) = nat offset" by simp
  from parse_varint_exhausted_at [OF cont, of "take (nat offset) data"] assms le
  show "parse_varint data offset = Inr (accumulated (drop (nat offset) data), int (length data))"
    by (simp add: len)
next
  assume "int (length data) \<le> offset"
  then show "parse_varint data offset = Inr (0, offset)" by (rule parse_varint_past_end)
qed

theorem parse_varint_exhaustion_witness:
  "parse_varint [0x08, 0x80, 0x81] 1 = Inr (128, 3) \<and> parse_varint [0x08, 0x80, 0x81] 3 = Inr (0, 3)"
  using parse_varint_exhaustion [of 1 "[0x08, 0x80, 0x81]"]
    parse_varint_exhaustion [of 3 "[0x08, 0x80, 0x81]"]
  by simp

text \<open>
  The claim as stated quantifies over every start offset. A start offset past the
  end of the buffer comes back unchanged, which is not the end-of-buffer offset, and
  a negative start offset on an empty buffer raises \<open>IndexError\<close>.
\<close>

theorem parse_varint_exhaustion_counterexample:
  "parse_varint [] 3 = Inr (0, 3) \<and> (3::int) \<noteq> int (length ([]::bytes))
   \<and> parse_varint [] (-1) = Inl IndexError"
  by (simp add: parse_varint_def parse_varint_loop.simps bytes_index_def)

section \<open>Properties of parse_proto_fields\<close>

lemma encode_varint_nonempty: "encode_varint v \<noteq> []"
  by (subst encode_varint.simps) simp

lemma encode_varint_length: "0 < length (encode_varint v)"
  using encode_varint_nonempty [of v] by simp

lemma encode_tag_length: "0 < length (encode_tag n wt)"
  unfolding encode_tag_def by (rule encode_varint_length)

lemma tag_decode:
  "wt < 8 \<Longrightarrow> drop_bit 3 (int (n * 8 + wt)) = int n \<and> int (n * 8 + wt) AND 0x07 = int wt"
proof -
  assume wt: "wt < 8"
  have "(int (n * 8 + wt)) AND 0x07 = take_bit 3 (int (n * 8 + wt))"
    by (simp add: take_bit_eq_mask mask_eq_exp_minus_1)
  with wt show ?thesis by (simp add: drop_bit_eq_div take_bit_eq_mod)
qed

lemma parse_varint_at:
  "data = pre @ encode_varint v @ post \<Longrightarrow> offset = int (length pre) \<Longrightarrow>
   parse_varint data offset = Inr (int v, offset + int (length (encode_varint v)))"
  by (simp add: parse_varint_encode)

lemma parse_tag_at:
  "data = pre @ encode_tag n wt @ post \<Longrightarrow> offset = int (length pre) \<Longrightarrow>
   parse_varint data offset = Inr (int (n * 8 + wt), offset + int (length (encode_tag n wt)))"
  unfolding encode_tag_def by (rule parse_varint_at)

lemma bytes_slice_at:
  "data = pre @ p @ post \<Longrightarrow> offset = int (length pre) \<Longrightarrow>
   bytes_slice data offset (offset + int (length p)) = p"
  by (simp add: bytes_slice_def clamp_bound_def)

lemma fields_loop_varint_step:
  assumes d: "data = pre @ encode_field (FVarint n v) @ post"
  shows "fields_loop data (int (length pre)) acc
    = fields_loop data (int (length pre) + int (length (encode_field (FVarint n v))))
        (acc @ emitted (FVarint n v))"
proof -
  let ?t = "encode_tag n 0" and ?e = "encode_varint v"
  have lt: "int (length pre) < int (length data)"
    using encode_tag_length [of n 0] unfolding d by (simp only: length_append encode_field.simps)
  have p1: "parse_varint data (int (length pre)) = Inr (int (n * 8 + 0), int (length pre) + int (length ?t))"
    by (rule parse_tag_at [where post = "?e @ post"]) (simp_all add: d)
  have p2: "parse_varint data (int (length pre) + int (length ?t))
      = Inr (int v, int (length pre) + int (length ?t) + int (length ?e))"
    by (rule parse_varint_at [where pre = "pre @ ?t" and post = post]) (simp_all add: d)
  from tag_decode [of 0 n] have td: "drop_bit 3 (int (n * 8)) = int n" "int (n * 8) AND 0x07 = 0"
    by simp_all
  show ?thesis
    by (subst fields_loop.simps) (use lt p1 p2 td in \<open>simp add: add.assoc\<close>)
qed

lemma fields_loop_lendelim_step:
  assumes d: "data = pre @ encode_field (FLenDelim n p) @ post"
  shows "fields_loop data (int (length pre)) acc
    = fields_loop data (int (length pre) + int (length (encode_field (FLenDelim n p))))
        (acc @ emitted (FLenDelim n p))"
proof -
  let ?t = "encode_tag n 2" and ?e = "encode_varint (length p)"
  have lt: "int (length pre) < int (length data)"
    using encode_tag_length [of n 2] unfolding d by (simp only: length_append encode_field.simps)
  have p1: "parse_varint data (int (length pre)) = Inr (int (n * 8 + 2), int (length pre) + int (length ?t))"
    by (rule parse_tag_at [where post = "?e @ p @ post"]) (simp_all add: d)
  have p2: "parse_varint data (int (length pre) + int (length ?t))
      = Inr (int (length p), int (length pre) + int (length ?t) + int (length ?e))"
    by (rule parse_varint_at [where pre = "pre @ ?t" and post = "p @ post"]) (simp_all add: d)
  have sl: "bytes_slice data (int (length pre) + int (length ?t) + int (length ?e))
              (int (length pre) + int (length ?t) + int (length ?e) + int (length p)) = p"
    by (rule bytes_slice_at [where pre = "pre @ ?t @ ?e" and post = post]) (simp_all add: d)
  have fits: "\<not> int (length pre) + int (length ?t) + int (length ?e) + int (length p) > int (length data)"
    by (simp add: d)
  from tag_decode [of 2 n] have td: "drop_bit 3 (int (n * 8 + 2)) = int n" "int (n * 8 + 2) AND 0x07 = 2"
    by simp_all
  show ?thesis
    by (subst fields_loop.simps) (use lt p1 p2 td sl fits in \<open>simp add: add.assoc\<close>)
qed


lemma length_le_bytes: "length (le_bytes k w) = k"
  by (simp add: le_bytes_def)

lemma fields_loop_fixed64_step:
  assumes d: "data = pre @ encode_field (FFixed64 n w) @ post"
  shows "fields_loop data (int (length pre)) acc
    = fields_loop data (int (length pre) + int (length (encode_field (FFixed64 n w))))
        (acc @ emitted (FFixed64 n w))"
proof -
  let ?t = "encode_tag n 1"
  have lt: "int (length pre) < int (length data)"
    using encode_tag_length [of n 1] unfolding d by (simp only: length_append encode_field.simps)
  have p1: "parse_varint data (int (length pre)) = Inr (int (n * 8 + 1), int (length pre) + int (length ?t))"
    by (rule parse_tag_at [where post = "le_bytes 8 w @ post"]) (simp_all add: d)
  from tag_decode [of 1 n] have td: "int (n * 8 + 1) AND 0x07 = 1"
    by simp
  show ?thesis
    by (subst fields_loop.simps) (use lt p1 td in \<open>simp add: add.assoc length_le_bytes\<close>)
qed

lemma fields_loop_fixed32_step:
  assumes d: "data = pre @ encode_field (FFixed32 n w) @ post"
  shows "fields_loop data (int (length pre)) acc
    = fields_loop data (int (length pre) + int (length (encode_field (FFixed32 n w))))
        (acc @ emitted (FFixed32 n w))"
proof -
  let ?t = "encode_tag n 5"
  have lt: "int (length pre) < int (length data)"
    using encode_tag_length [of n 5] unfolding d by (simp only: length_append encode_field.simps)
  have p1: "parse_varint data (int (length pre)) = Inr (int (n * 8 + 5), int (length pre) + int (length ?t))"
    by (rule parse_tag_at [where post = "le_bytes 4 w @ post"]) (simp_all add: d)
  from tag_decode [of 5 n] have td: "int (n * 8 + 5) AND 0x07 = 5"
    by simp
  show ?thesis
    by (subst fields_loop.simps) (use lt p1 td in \<open>simp add: add.assoc length_le_bytes\<close>)
qed

lemma fields_loop_field_step:
  "fields_loop (pre @ encode_field f @ post) (int (length pre)) acc
    = fields_loop (pre @ encode_field f @ post) (int (length pre) + int (length (encode_field f)))
        (acc @ emitted f)"
proof (cases f)
  case (FVarint n v)
  show ?thesis unfolding FVarint by (rule fields_loop_varint_step) simp
next
  case (FLenDelim n p)
  show ?thesis unfolding FLenDelim by (rule fields_loop_lendelim_step) simp
next
  case (FFixed64 n w)
  show ?thesis unfolding FFixed64 by (rule fields_loop_fixed64_step) simp
next
  case (FFixed32 n w)
  show ?thesis unfolding FFixed32 by (rule fields_loop_fixed32_step) simp
qed

lemma fields_loop_message:
  "fields_loop (pre @ encode_message fs @ post) (int (length pre)) acc
    = fields_loop (pre @ encode_message fs @ post) (int (length pre) + int (length (encode_message fs)))
        (acc @ concat (map emitted fs))"
proof (induction fs arbitrary: pre acc)
  case Nil
  show ?case by (simp add: encode_message_def)
next
  case (Cons f fs)
  have m: "encode_message (f # fs) = encode_field f @ encode_message fs"
    by (simp add: encode_message_def)
  have "fields_loop (pre @ encode_message (f # fs) @ post) (int (length pre)) acc
      = fields_loop (pre @ encode_field f @ (encode_message fs @ post)) (int (length pre)) acc"
    by (simp add: m)
  also have "\<dots> = fields_loop (pre @ encode_field f @ (encode_message fs @ post))
        (int (length pre) + int (length (encode_field f))) (acc @ emitted f)"
    by (rule fields_loop_field_step)
  also have "\<dots> = fields_loop ((pre @ encode_field f) @ encode_message fs @ post)
        (int (length (pre @ encode_field f))) (acc @ emitted f)"
    by simp
  also have "\<dots> = fields_loop ((pre @ encode_field f) @ encode_message fs @ post)
        (int (length (pre @ encode_field f)) + int (length (encode_message fs)))
        ((acc @ emitted f) @ concat (map emitted fs))"
    by (rule Cons.IH)
  also have "\<dots> = fields_loop (pre @ encode_message (f # fs) @ post)
        (int (length pre) + int (length (encode_message (f # fs))))
        (acc @ concat (map emitted (f # fs)))"
    by (simp add: m add.assoc)
  finally show ?case .
qed

lemma fields_loop_done: "int (length data) \<le> offset \<Longrightarrow> fields_loop data offset acc = acc"
  by (subst fields_loop.simps) simp

lemma parse_proto_fields_message:
  "parse_proto_fields (encode_message fs) = concat (map emitted fs)"
  unfolding parse_proto_fields_def
  using fields_loop_message [of "[]" fs "[]" "[]"] by (simp add: fields_loop_done)

lemma fields_loop_invariant:
  "\<forall>f\<in>set acc. well_formed f \<Longrightarrow> \<forall>f\<in>set (fields_loop data offset acc). well_formed f"
proof (induction data offset acc rule: fields_loop.induct)
  case (1 data offset fields)
  show ?case
  proof (cases "offset < int (length data)")
    case False
    with "1.prems" show ?thesis by (subst fields_loop.simps) simp
  next
    case lt: True
    show ?thesis
    proof (cases "parse_varint data offset")
      case (Inl e)
      with lt "1.prems" show ?thesis by (subst fields_loop.simps) simp
    next
      case (Inr r)
      obtain tag offset1 where r: "r = (tag, offset1)" by (cases r)
      note p1 = Inr [unfolded r]
      from parse_varint_nonneg [OF p1] have tag0: "0 \<le> drop_bit 3 tag" by simp
      consider (w0) "tag AND 0x07 = 0" | (w2) "tag AND 0x07 = 2" | (w1) "tag AND 0x07 = 1"
        | (w5) "tag AND 0x07 = 5" | (other) "tag AND 0x07 \<notin> {0, 1, 2, 5}" by auto
      then show ?thesis
      proof cases
        case w0
        show ?thesis
        proof (cases "parse_varint data offset1")
          case (Inl e)
          with lt p1 w0 "1.prems" show ?thesis by (subst fields_loop.simps) simp
        next
          case (Inr r2)
          obtain val offset2 where r2: "r2 = (val, offset2)" by (cases r2)
          note p2 = Inr [unfolded r2]
          from parse_varint_nonneg [OF p2] tag0 w0 "1.prems"
          have "\<forall>f\<in>set (fields @ [(drop_bit 3 tag, tag AND 0x07, VInt val)]). well_formed f"
            by simp
          from "1.IH"(1) [OF lt \<open>parse_varint data offset = Inr r\<close> r [symmetric] w0 Inr r2 [symmetric] this]
          show ?thesis
            by (subst fields_loop.simps) (simp add: lt p1 w0 p2)
        qed
      next
        case w2
        then have n0: "tag AND 0x07 \<noteq> 0" by simp
        show ?thesis
        proof (cases "parse_varint data offset1")
          case (Inl e)
          with lt p1 w2 "1.prems" show ?thesis by (subst fields_loop.simps) simp
        next
          case (Inr r2)
          obtain len offset2 where r2: "r2 = (len, offset2)" by (cases r2)
          note p2 = Inr [unfolded r2]
          show ?thesis
          proof (cases "offset2 + len > int (length data)")
            case True
            with lt p1 w2 p2 "1.prems" show ?thesis by (subst fields_loop.simps) simp
          next
            case False
            from tag0 w2 "1.prems"
            have "\<forall>f\<in>set (fields @ [(drop_bit 3 tag, tag AND 0x07,
                     VBytes (bytes_slice data offset2 (offset2 + len)))]). well_formed f"
              by simp
            from "1.IH"(2) [OF lt \<open>parse_varint data offset = Inr r\<close> r [symmetric] n0 w2 Inr r2 [symmetric] False this]
            show ?thesis
              by (subst fields_loop.simps) (simp add: lt p1 w2 p2 False)
          qed
        qed
      next
        case w1
        then have n: "tag AND 0x07 \<noteq> 0" "tag AND 0x07 \<noteq> 2" by simp_all
        from "1.IH"(3) [OF lt \<open>parse_varint data offset = Inr r\<close> r [symmetric] n w1 "1.prems"]
        show ?thesis
          by (subst fields_loop.simps) (simp add: lt p1 w1)
      next
        case w5
        then have n: "tag AND 0x07 \<noteq> 0" "tag AND 0x07 \<noteq> 2" "tag AND 0x07 \<noteq> 1" by simp_all
        from "1.IH"(4) [OF lt \<open>parse_varint data offset = Inr r\<close> r [symmetric] n w5 "1.prems"]
        show ?thesis
          by (subst fields_loop.simps) (simp add: lt p1 w5)
      next
        case other
        with lt p1 "1.prems" show ?thesis by (subst fields_loop.simps) simp
      qed
    qed
  qed
qed

lemma accumulated_nonneg: "0 \<le> accumulated bs"
  by (induction bs) simp_all

lemma length_emitted: "length (concat (map emitted fs)) = length (filter scanned fs)"
proof (induction fs)
  case Nil
  show ?case by simp
next
  case (Cons f fs)
  then show ?case by (cases f) simp_all
qed

lemma fields_loop_truncated:
  assumes short: "length partial < n"
  shows "fields_loop (encode_message fs @ encode_tag k 2 @ encode_varint n @ partial)
           (int (length (encode_message fs))) acc = acc"
proof -
  let ?pre = "encode_message fs" and ?t = "encode_tag k 2" and ?e = "encode_varint n"
  let ?data = "?pre @ ?t @ ?e @ partial"
  have lt: "int (length ?pre) < int (length ?data)"
    using encode_tag_length [of k 2] by (simp only: length_append)
  have p1: "parse_varint ?data (int (length ?pre)) = Inr (int (k * 8 + 2), int (length ?pre) + int (length ?t))"
    by (rule parse_tag_at [where post = "?e @ partial"]) simp_all
  have p2: "parse_varint ?data (int (length ?pre) + int (length ?t))
      = Inr (int n, int (length ?pre) + int (length ?t) + int (length ?e))"
    by (rule parse_varint_at [where pre = "?pre @ ?t" and post = partial]) simp_all
  have over: "int (length ?pre) + int (length ?t) + int (length ?e) + int n > int (length ?data)"
    using short by simp
  from tag_decode [of 2 k] have td: "int (k * 8 + 2) AND 0x07 = 2"
    by simp
  show ?thesis
    by (subst fields_loop.simps) (use lt p1 p2 td over in \<open>simp add: add.assoc\<close>)
qed

lemma fields_loop_trailing_varint:
  assumes cont: "\<forall>b\<in>set partial. uint b AND 0x80 \<noteq> 0"
  shows "fields_loop (encode_message fs @ encode_tag k 0 @ partial)
           (int (length (encode_message fs))) acc = acc @ [(int k, 0, VInt (accumulated partial))]"
proof -
  let ?pre = "encode_message fs" and ?t = "encode_tag k 0"
  let ?data = "?pre @ ?t @ partial"
  have lt: "int (length ?pre) < int (length ?data)"
    using encode_tag_length [of k 0] by (simp only: length_append)
  have p1: "parse_varint ?data (int (length ?pre)) = Inr (int (k * 8 + 0), int (length ?pre) + int (length ?t))"
    by (rule parse_tag_at [where post = partial]) simp_all
  have p2: "parse_varint ?data (int (length ?pre) + int (length ?t))
      = Inr (accumulated partial, int (length ?data))"
    using parse_varint_exhausted_at [OF cont, of "?pre @ ?t"] by (simp add: add.assoc)
  from tag_decode [of 0 k] have td: "drop_bit 3 (int (k * 8)) = int k" "int (k * 8) AND 0x07 = 0"
    by simp_all
  have "fields_loop ?data (int (length ?pre)) acc
      = fields_loop ?data (int (length ?data)) (acc @ [(int k, 0, VInt (accumulated partial))])"
    by (subst fields_loop.simps) (use lt p1 p2 td in \<open>simp add: add.assoc\<close>)
  then show ?thesis by (simp add: fields_loop_done)
qed

lemma parse_proto_fields_then:
  "parse_proto_fields (encode_message fs @ post)
     = fields_loop (encode_message fs @ post) (int (length (encode_message fs))) (concat (map emitted fs))"
  unfolding parse_proto_fields_def using fields_loop_message [of "[]" fs post "[]"] by simp

text \<open>
  C5 (scan completeness), as amended. For every validly encoded message buffer,
  \<open>parse_proto_fields\<close> yields exactly one tuple for each varint field and each
  length-delimited field, in encoding order, and no tuple for a fixed64 or fixed32
  field: the number of tuples is the number of varint and length-delimited fields.
  A buffer of \<open>N\<close> fields none of which is fixed-width yields exactly \<open>N\<close> tuples.
\<close>

theorem scan_valid_message:
  "parse_proto_fields (encode_message fs) = concat (map emitted fs)
   \<and> length (parse_proto_fields (encode_message fs)) = length (filter scanned fs)
   \<and> ((\<forall>f\<in>set fs. scanned f) \<longrightarrow> length (parse_proto_fields (encode_message fs)) = length fs)"
  by (simp add: parse_proto_fields_message length_emitted)

theorem scan_valid_message_witness:
  "parse_proto_fields (encode_message [FVarint 1 300, FLenDelim 2 [0x41, 0x42], FVarint 4 0])
     = [(1, 0, VInt 300), (2, 2, VBytes [0x41, 0x42]), (4, 0, VInt 0)]
   \<and> length (parse_proto_fields (encode_message [FVarint 1 300, FLenDelim 2 [0x41, 0x42], FVarint 4 0])) = 3"
  using scan_valid_message [of "[FVarint 1 300, FLenDelim 2 [0x41, 0x42], FVarint 4 0]"] by simp

text \<open>
  The claim as stated counts every field. A message holding the single fixed32 field
  number 1 is validly encoded as \<open>0D 00 00 00 00\<close>; the scanner moves over it and
  yields no tuple.
\<close>

theorem scan_valid_message_counterexample:
  "encode_message [FFixed32 1 0] = [0x0D, 0, 0, 0, 0]
   \<and> parse_proto_fields [0x0D, 0, 0, 0, 0] = []
   \<and> length (parse_proto_fields (encode_message [FFixed32 1 0])) \<noteq> length [FFixed32 1 0]"
  by (simp add: encode_message_def encode_tag_def encode_varint.simps le_bytes_def upt_rec
      parse_proto_fields_def fields_loop.simps parse_varint_def parse_varint_loop.simps bytes_index_def)

text \<open>
  C4 (truncation tolerance), as amended. A buffer that consists of fully encoded
  fields followed by a length-delimited field whose declared length \<open>n\<close> exceeds
  the bytes that remain is scanned to exactly what the fully encoded fields alone are
  scanned to: the tuples of the varint and length-delimited fields before the
  truncation point, in order, none for a fixed64 or fixed32 field before it, and
  nothing from the oversized field or after it.
\<close>

theorem scan_truncated_payload:
  assumes "length partial < n"
  shows "parse_proto_fields (encode_message fs @ encode_tag k 2 @ encode_varint n @ partial)
           = parse_proto_fields (encode_message fs)
       \<and> parse_proto_fields (encode_message fs @ encode_tag k 2 @ encode_varint n @ partial)
           = concat (map emitted fs)
       \<and> length (parse_proto_fields (encode_message fs @ encode_tag k 2 @ encode_varint n @ partial))
           = length (filter scanned fs)"
  using assms
  by (simp add: parse_proto_fields_then fields_loop_truncated parse_proto_fields_message length_emitted)

theorem scan_truncated_payload_witness:
  "length [0x42, 0x43 :: byte] < 5
   \<and> parse_proto_fields ([0x08, 0x07, 0x12, 0x01, 0x41] @ [0x1A] @ [0x05] @ [0x42, 0x43])
       = parse_proto_fields [0x08, 0x07, 0x12, 0x01, 0x41]
   \<and> parse_proto_fields ([0x08, 0x07, 0x12, 0x01, 0x41] @ [0x1A] @ [0x05] @ [0x42, 0x43])
       = [(1, 0, VInt 7), (2, 2, VBytes [0x41])]"
  using scan_truncated_payload [of "[0x42, 0x43]" 5 "[FVarint 1 7, FLenDelim 2 [0x41]]" 3]
  by (auto simp add: encode_message_def encode_tag_def encode_varint.simps)

text \<open>
  The claim as stated yields every field fully encoded before the truncation point.
  In the buffer \<open>0D 00 00 00 00 12 05 41\<close> the fixed32 field number 1 is fully
  encoded and the length-delimited field number 2 declares five bytes where one
  remains; the scanner yields no tuple at all.
\<close>

theorem scan_truncated_payload_counterexample:
  "encode_message [FFixed32 1 0] @ encode_tag 2 2 @ encode_varint 5 @ [0x41]
     = [0x0D, 0, 0, 0, 0, 0x12, 0x05, 0x41]
   \<and> parse_proto_fields [0x0D, 0, 0, 0, 0, 0x12, 0x05, 0x41] = []
   \<and> length (parse_proto_fields [0x0D, 0, 0, 0, 0, 0x12, 0x05, 0x41]) \<noteq> length [FFixed32 1 0]"
  by (simp add: encode_message_def encode_tag_def encode_varint.simps le_bytes_def upt_rec
      parse_proto_fields_def fields_loop.simps parse_varint_def parse_varint_loop.simps bytes_index_def)

text \<open>
  C10 (trailing varint field). When the buffer ends right after the tag of a varint
  field, or inside that field's value (every remaining byte carries the continuation
  bit), \<open>parse_proto_fields\<close> still appends the field, with the value accumulated
  from the bytes that are there and with 0 when there are none. The result is the
  result for a buffer in which that field is completely encoded with that value.
\<close>

theorem scan_trailing_varint:
  assumes "\<forall>b\<in>set partial. uint b AND 0x80 \<noteq> 0"
  shows "parse_proto_fields (encode_message fs @ encode_tag k 0 @ partial)
           = concat (map emitted fs) @ [(int k, 0, VInt (accumulated partial))]
       \<and> parse_proto_fields (encode_message fs @ encode_tag k 0)
           = concat (map emitted fs) @ [(int k, 0, VInt 0)]
       \<and> parse_proto_fields (encode_message fs @ encode_tag k 0 @ partial)
           = parse_proto_fields (encode_message (fs @ [FVarint k (nat (accumulated partial))]))"
proof -
  have a: "parse_proto_fields (encode_message fs @ encode_tag k 0 @ partial)
           = concat (map emitted fs) @ [(int k, 0, VInt (accumulated partial))]"
    using assms by (simp add: parse_proto_fields_then fields_loop_trailing_varint)
  have b: "parse_proto_fields (encode_message fs @ encode_tag k 0)
           = concat (map emitted fs) @ [(int k, 0, VInt 0)]"
    using fields_loop_trailing_varint [of "[]" fs k] parse_proto_fields_then [of fs "encode_tag k 0"]
    by simp
  have c: "parse_proto_fields (encode_message (fs @ [FVarint k (nat (accumulated partial))]))
           = concat (map emitted fs) @ [(int k, 0, VInt (accumulated partial))]"
    by (simp add: parse_proto_fields_message accumulated_nonneg)
  from a b c show ?thesis by simp
qed

theorem scan_trailing_varint_witness:
  "parse_proto_fields ([0x08, 0x07] @ [0x10] @ [0x80, 0x81]) = [(1, 0, VInt 7), (2, 0, VInt 128)]
   \<and> parse_proto_fields ([0x08, 0x07] @ [0x10]) = [(1, 0, VInt 7), (2, 0, VInt 0)]"
  using scan_trailing_varint [of "[0x80, 0x81]" "[FVarint 1 7]" 2]
  by (simp add: encode_message_def encode_tag_def encode_varint.simps)

text \<open>
  C9 (well-formedness of scanned tuples), as amended. Every tuple
  \<open>parse_proto_fields\<close> produces, on any buffer, has a field number \<open>\<ge> 0\<close> and a
  wire type in \<open>{0, 2}\<close>, hence in \<open>{0, 1, 2, 5}\<close>; its value is a non-negative
  integer for wire type 0 and a bytes object for wire type 2.
\<close>

theorem scanned_field_invariant:
  assumes "(n, wt, v) \<in> set (parse_proto_fields data)"
  shows "0 \<le> n \<and> wt \<in> {0, 2} \<and> wt \<in> {0, 1, 2, 5} \<and> well_formed (n, wt, v)"
proof -
  have "\<forall>f\<in>set (parse_proto_fields data). well_formed f"
    unfolding parse_proto_fields_def by (rule fields_loop_invariant) simp
  with assms have "well_formed (n, wt, v)" by blast
  then show ?thesis by (cases v) simp_all
qed

theorem scanned_field_invariant_witness:
  "(3, 2, VBytes [0x41]) \<in> set (parse_proto_fields [0x08, 0x07, 0x1A, 0x01, 0x41])
   \<and> well_formed (3, 2, VBytes [0x41])"
  using scanned_field_invariant [of 3 2 "VBytes [0x41]" "[0x08, 0x07, 0x1A, 0x01, 0x41]"]
  by (simp add: parse_proto_fields_def fields_loop.simps parse_varint_def
      parse_varint_loop.simps bytes_index_def bytes_slice_def clamp_bound_def)

text \<open>
  The claim as stated asks for a field number \<open>\<ge> 1\<close>. A tag byte below 8 has field
  number 0, and the scanner reports it like any other.
\<close>

theorem scanned_field_invariant_counterexample:
  "parse_proto_fields [0x00, 0x05] = [(0, 0, VInt 5)] \<and> \<not> (1::int) \<le> 0"
  by (simp add: parse_proto_fields_def fields_loop.simps parse_varint_def
      parse_varint_loop.simps bytes_index_def)

section \<open>Properties of parse_tool_call\<close>

lemma str_limit_large: "100000 \<le> str_limit"
proof -
  have "(5::nat) \<le> max_str_digits" by (simp add: max_str_digits_def)
  then have "(10::int) ^ 5 \<le> 10 ^ max_str_digits" by (rule power_increasing) simp
  moreover have "(10::int) ^ 5 = 100000" by simp
  ultimately show ?thesis by (simp only: str_limit_def)
qed

lemma below_str_limit: "\<bar>k\<bar> < 100000 \<Longrightarrow> \<not> str_limit \<le> \<bar>k\<bar>"
  using str_limit_large by simp

lemma get_name_small: "\<bar>k\<bar> < str_limit \<Longrightarrow> get_name table k = Inr (name_of table k)"
  by (simp add: get_name_def str_int_def name_of_def)

lemma get_name_huge: "str_limit \<le> \<bar>k\<bar> \<Longrightarrow> get_name table k = Inl ValueError"
  by (simp add: get_name_def str_int_def)

lemma get_name_table: "\<bar>k\<bar> < 100000 \<Longrightarrow> get_name table k = Inr (name_of table k)"
  using str_limit_large by (simp add: get_name_small)

lemma arg_step_small:
  "\<bar>afn\<bar> < str_limit \<Longrightarrow>
   arg_step arg_schema (afn, awt, x) a = Inr (coerce (name_of arg_schema afn) awt x a)"
  by (simp add: get_name_small)

text \<open>
  A field number of more than 4300 digits: the f-string raises, nothing is stored for
  the field, and the loop is left with the arguments stored so far.
\<close>

lemma arg_loop_huge_field:
  "str_limit \<le> \<bar>afn\<bar> \<Longrightarrow>
   arg_step arg_schema (afn, awt, x) a = Inl ValueError
   \<and> arg_loop arg_schema ((afn, awt, x) # post) a = a"
  by (simp add: get_name_huge)

lemma arg_loop_small_append:
  "\<forall>g\<in>set pre. \<bar>fst g\<bar> < str_limit \<Longrightarrow>
   arg_loop arg_schema (pre @ rest) a = arg_loop arg_schema rest (arg_loop arg_schema pre a)"
proof (induction pre arbitrary: a)
  case Nil
  show ?case by simp
next
  case (Cons g pre)
  obtain n w x where g: "g = (n, w, x)" by (cases g)
  from Cons.prems g have n: "\<bar>n\<bar> < str_limit" and rest: "\<forall>g\<in>set pre. \<bar>fst g\<bar> < str_limit"
    by simp_all
  show ?case using Cons.IH [OF rest] by (simp add: g get_name_small [OF n])
qed



lemma nested_loop_string_fields:
  "nested_loop nested aval
     = (case string_fields nested of [] \<Rightarrow> utf8_decode aval | nval # _ \<Rightarrow> utf8_decode nval)"
proof (induction nested aval rule: nested_loop.induct)
  case (1 aval)
  show ?case by (simp add: string_fields_def)
next
  case (2 nfn nwt nval rest aval)
  then show ?case by (simp add: string_fields_def)
next
  case (3 nfn nwt v rest aval)
  then show ?case by (simp add: string_fields_def)
qed




text \<open>
  C7 (argument value coercion), as amended. The statement is about the nested
  argument fields the decoder processes: those with a field number of at most 4300
  decimal digits that only such fields precede. For a length-delimited argument
  field, the bytes are scanned as a sub-message. If the sub-message has a
  length-delimited field 1, the argument is the UTF-8 decoding of the first such
  field, and the argument is omitted when that decoding fails (the raw bytes are not
  tried then). If it has none, the argument is the UTF-8 decoding of the raw bytes,
  and is omitted when that fails. For a varint argument field, the argument named
  \<open>replaceAll\<close> becomes the boolean \<open>value == 1\<close> (1 gives true, 0 gives false) and
  any other argument keeps the integer.
\<close>

theorem argument_coercion:
  assumes "\<bar>afn\<bar> < str_limit"
  shows "arg_step arg_schema (afn, 2, VBytes aval) a
     = Inr (case string_fields (parse_proto_fields aval) of
              [] \<Rightarrow> (case utf8_decode aval of
                       Inr s \<Rightarrow> a(name_of arg_schema afn \<mapsto> AStr s) | Inl e \<Rightarrow> a)
            | nval # others \<Rightarrow>
                     (case utf8_decode nval of
                       Inr s \<Rightarrow> a(name_of arg_schema afn \<mapsto> AStr s) | Inl e \<Rightarrow> a))
   \<and> arg_step arg_schema (afn, 0, VInt v) a
     = Inr (if name_of arg_schema afn = ''replaceAll''
            then a(''replaceAll'' \<mapsto> ABool (v = 1))
            else a(name_of arg_schema afn \<mapsto> AInt v))
   \<and> arg_step (arg_schema_of ''edit'') (4, 0, VInt 1) a = Inr (a(''replaceAll'' \<mapsto> ABool True))
   \<and> arg_step (arg_schema_of ''edit'') (4, 0, VInt 0) a = Inr (a(''replaceAll'' \<mapsto> ABool False))
   \<and> ((\<forall>g\<in>set pre. \<bar>fst g\<bar> < str_limit) \<longrightarrow>
        arg_loop arg_schema (pre @ (afn, awt, x) # post) a
          = arg_loop arg_schema post (coerce (name_of arg_schema afn) awt x (arg_loop arg_schema pre a))
        \<and> arg_step arg_schema (afn, awt, x) (arg_loop arg_schema pre a)
          = Inr (coerce (name_of arg_schema afn) awt x (arg_loop arg_schema pre a)))"
proof (intro conjI impI)
  show "arg_step arg_schema (afn, 2, VBytes aval) a
     = Inr (case string_fields (parse_proto_fields aval) of
              [] \<Rightarrow> (case utf8_decode aval of
                       Inr s \<Rightarrow> a(name_of arg_schema afn \<mapsto> AStr s) | Inl e \<Rightarrow> a)
            | nval # others \<Rightarrow>
                     (case utf8_decode nval of
                       Inr s \<Rightarrow> a(name_of arg_schema afn \<mapsto> AStr s) | Inl e \<Rightarrow> a))"
    unfolding arg_step_small [OF assms]
    by (simp add: nested_loop_string_fields split: list.splits sum.splits)
next
  show "arg_step arg_schema (afn, 0, VInt v) a
     = Inr (if name_of arg_schema afn = ''replaceAll''
            then a(''replaceAll'' \<mapsto> ABool (v = 1))
            else a(name_of arg_schema afn \<mapsto> AInt v))"
    unfolding arg_step_small [OF assms] by simp
next
  have e: "name_of (arg_schema_of ''edit'') 4 = ''replaceAll''"
    by (simp add: name_of_def arg_schema_of_def TOOL_ARG_SCHEMA_def)
  show "arg_step (arg_schema_of ''edit'') (4, 0, VInt 1) a = Inr (a(''replaceAll'' \<mapsto> ABool True))"
    by (simp add: get_name_table e)
  show "arg_step (arg_schema_of ''edit'') (4, 0, VInt 0) a = Inr (a(''replaceAll'' \<mapsto> ABool False))"
    by (simp add: get_name_table e)
next
  assume pre: "\<forall>g\<in>set pre. \<bar>fst g\<bar> < str_limit"
  show "arg_loop arg_schema (pre @ (afn, awt, x) # post) a
          = arg_loop arg_schema post (coerce (name_of arg_schema afn) awt x (arg_loop arg_schema pre a))"
    by (simp add: arg_loop_small_append [OF pre] get_name_small [OF assms])
next
  show "arg_step arg_schema (afn, awt, x) (arg_loop arg_schema pre a)
          = Inr (coerce (name_of arg_schema afn) awt x (arg_loop arg_schema pre a))"
    by (rule arg_step_small [OF assms])
qed

theorem argument_coercion_witness:
  "\<bar>1::int\<bar> < str_limit \<and> \<bar>2::int\<bar> < str_limit
   \<and> arg_step (arg_schema_of ''read'') (1, 2, VBytes [0x0A, 0x02, 0x68, 0x69]) Map.empty
     = Inr [''filePath'' \<mapsto> AStr (ascii ''hi'')]
   \<and> arg_step (arg_schema_of ''read'') (1, 2, VBytes [0x68, 0x69]) Map.empty
     = Inr [''filePath'' \<mapsto> AStr (ascii ''hi'')]
   \<and> arg_step (arg_schema_of ''read'') (2, 0, VInt 40) Map.empty = Inr [''offset'' \<mapsto> AInt 40]
   \<and> arg_loop (arg_schema_of ''read'') ([(2, 0, VInt 40)] @ (3, 0, VInt 7) # []) Map.empty
     = [''offset'' \<mapsto> AInt 40, ''limit'' \<mapsto> AInt 7]"
proof -
  have s1: "\<bar>1::int\<bar> < str_limit" and s2: "\<bar>2::int\<bar> < str_limit" and s3: "\<bar>3::int\<bar> < str_limit"
    using str_limit_large by simp_all
  have pre: "\<forall>g\<in>set [(2::int, 0::int, VInt 40)]. \<bar>fst g\<bar> < str_limit"
    using s2 by simp
  show ?thesis
    using argument_coercion [OF s1, of "arg_schema_of ''read''" "[0x0A, 0x02, 0x68, 0x69]" Map.empty]
      argument_coercion [OF s1, of "arg_schema_of ''read''" "[0x68, 0x69]" Map.empty]
      argument_coercion [OF s2, of "arg_schema_of ''read''" _ Map.empty 40]
      argument_coercion [OF s3, of "arg_schema_of ''read''" _ Map.empty _ "[(2, 0, VInt 40)]" 0 "VInt 7" "[]"]
      pre s1 s2
    by (simp add: parse_proto_fields_def fields_loop.simps parse_varint_def
        parse_varint_loop.simps bytes_index_def bytes_slice_def clamp_bound_def
        string_fields_def arg_schema_of_def TOOL_ARG_SCHEMA_def name_of_def get_name_table
        ascii_def between_def)
qed

text \<open>
  The claim as stated falls back to the raw bytes whenever the wrapped reading fails.
  The argument bytes \<open>0A 01 C3 A9\<close> scan to a field 1 holding the single byte
  \<open>C3\<close>, which is not UTF-8, while the four bytes as a whole are the UTF-8 encoding
  of a three-character string; the decoder omits the argument.
\<close>

theorem argument_coercion_counterexample:
  "parse_proto_fields [0x0A, 0x01, 0xC3, 0xA9] = [(1, 2, VBytes [0xC3])]
   \<and> utf8_decode [0xC3] = Inl UnicodeDecodeError
   \<and> utf8_decode [0x0A, 0x01, 0xC3, 0xA9] = Inr [10, 1, 233]
   \<and> arg_step (arg_schema_of ''read'') (1, 2, VBytes [0x0A, 0x01, 0xC3, 0xA9]) Map.empty = Inr Map.empty
   \<and> parse_tool_call [0x42, 0x06, 0x0A, 0x04, 0x0A, 0x01, 0xC3, 0xA9]
       = \<lparr>tool_name = ''read'', args = Map.empty\<rparr>"
  by (simp add: parse_tool_call_def parse_proto_fields_def fields_loop.simps parse_varint_def
      parse_varint_loop.simps bytes_index_def bytes_slice_def clamp_bound_def
      TOOL_FIELD_MAP_def between_def get_name_table)

section \<open>Properties of parse_agent_message_detailed\<close>



text \<open>
  A field number of more than 4300 digits in an InteractionUpdate: the f-string
  raises before anything is appended, and both loops are left with the results
  appended so far.
\<close>

lemma update_loop_huge_field:
  "str_limit \<le> \<bar>ufn\<bar> \<Longrightarrow>
   update_step (ufn, uwt, x) results = Inl ValueError
   \<and> update_loop ((ufn, uwt, x) # rest) results = (Some ValueError, results)"
  by (simp add: get_name_huge)




section \<open>Properties of the frame loop\<close>





lemma bytes_index_shift:
  "0 \<le> off \<Longrightarrow> bytes_index (pre @ ys) (int (length pre) + off) = bytes_index ys off"
  by (simp add: bytes_index_def nth_append nat_add_distrib)

lemma bytes_slice_shift:
  "0 \<le> a \<Longrightarrow> 0 \<le> b \<Longrightarrow>
   bytes_slice (pre @ ys) (int (length pre) + a) (int (length pre) + b) = bytes_slice ys a b"
  by (simp add: bytes_slice_def clamp_bound_def nat_add_distrib min_def)

lemma grpc_frames_loop_append:
  "grpc_frames_loop data offset (acc1 @ acc2) = acc1 @ grpc_frames_loop data offset acc2"
proof (induction data offset acc2 arbitrary: acc1 rule: grpc_frames_loop.induct)
  case (1 data offset frames)
  let ?n = "int_from_bytes_big (bytes_slice data (offset + 1) (offset + 5))"
  show ?case
  proof (cases "offset + 5 \<le> int (length data)")
    case False
    then show ?thesis
      by (simp add: grpc_frames_loop.simps [of data offset])
  next
    case le: True
    show ?thesis
    proof (cases "bytes_index data offset")
      case (Inl e)
      with le show ?thesis by (simp add: grpc_frames_loop.simps [of data offset])
    next
      case (Inr flags)
      show ?thesis
      proof (cases "offset + 5 + ?n > int (length data)")
        case True
        with le Inr show ?thesis by (simp add: grpc_frames_loop.simps [of data offset])
      next
        case False
        from "1.IH" [OF le Inr False, of acc1] le Inr False show ?thesis
          by (simp add: grpc_frames_loop.simps [of data offset])
      qed
    qed
  qed
qed

lemma grpc_frames_loop_acc:
  "grpc_frames_loop data offset acc = acc @ grpc_frames_loop data offset []"
  using grpc_frames_loop_append [of data offset acc "[]"] by simp

lemma grpc_frames_loop_shift:
  fixes frames :: "(int \<times> bytes) list"
  shows "0 \<le> offset \<Longrightarrow>
   grpc_frames_loop (pre @ ys) (int (length pre) + offset) acc = acc @ grpc_frames_loop ys offset []"
proof (induction ys offset frames arbitrary: acc rule: grpc_frames_loop.induct)
  case (1 ys offset frames)
  let ?n = "int_from_bytes_big (bytes_slice ys (offset + 1) (offset + 5))"
  note off = "1.prems"
  have ix: "bytes_index (pre @ ys) (int (length pre) + offset) = bytes_index ys offset"
    using off by (rule bytes_index_shift)
  have len: "int_from_bytes_big (bytes_slice (pre @ ys) (int (length pre) + offset + 1)
                (int (length pre) + offset + 5)) = ?n"
    using off bytes_slice_shift [of "offset + 1" "offset + 5" pre ys] by (simp add: add.assoc)
  have cond: "(int (length pre) + offset + 5 \<le> int (length (pre @ ys))) = (offset + 5 \<le> int (length ys))"
    by simp
  show ?case
  proof (cases "offset + 5 \<le> int (length ys)")
    case False
    then show ?thesis
      by (simp add: grpc_frames_loop.simps [of ys offset]
          grpc_frames_loop.simps [of "pre @ ys" "int (length pre) + offset"])
  next
    case le: True
    show ?thesis
    proof (cases "bytes_index ys offset")
      case (Inl e)
      with le ix show ?thesis
        by (simp add: grpc_frames_loop.simps [of ys offset]
            grpc_frames_loop.simps [of "pre @ ys" "int (length pre) + offset"])
    next
      case (Inr flags)
      show ?thesis
      proof (cases "offset + 5 + ?n > int (length ys)")
        case True
        with le ix Inr len show ?thesis
          by (simp add: grpc_frames_loop.simps [of ys offset]
              grpc_frames_loop.simps [of "pre @ ys" "int (length pre) + offset"])
      next
        case False
        have n0: "0 \<le> ?n" by (rule int_from_bytes_big_nonneg)
        let ?fr = "(flags, bytes_slice ys (offset + 5) (offset + 5 + ?n))"
        have sl: "bytes_slice (pre @ ys) (int (length pre) + offset + 5)
                    (int (length pre) + offset + 5 + ?n)
                  = bytes_slice ys (offset + 5) (offset + 5 + ?n)"
          using off n0 bytes_slice_shift [of "offset + 5" "offset + 5 + ?n" pre ys]
          by (simp add: add.assoc)
        from off n0 have "0 \<le> offset + (5 + ?n)" by simp
        from "1.IH" [OF le Inr False this, of "acc @ [?fr]"]
        have ih: "grpc_frames_loop (pre @ ys) (int (length pre) + (offset + (5 + ?n))) (acc @ [?fr])
                  = (acc @ [?fr]) @ grpc_frames_loop ys (offset + (5 + ?n)) []" .
        have l: "grpc_frames_loop (pre @ ys) (int (length pre) + offset) acc
                  = grpc_frames_loop (pre @ ys) (int (length pre) + (offset + (5 + ?n))) (acc @ [?fr])"
          using le ix Inr len False sl
          by (simp add: grpc_frames_loop.simps [of "pre @ ys" "int (length pre) + offset"] add.assoc)
        have r: "grpc_frames_loop ys offset [] = [?fr] @ grpc_frames_loop ys (offset + (5 + ?n)) []"
          using le Inr False grpc_frames_loop_acc [of ys "offset + (5 + ?n)" "[?fr]"]
          by (simp add: grpc_frames_loop.simps [of ys offset])
        show ?thesis by (simp only: l ih r append_assoc)
      qed
    qed
  qed
qed

lemma grpc_frames_append:
  "grpc_frames (xs @ ys) = grpc_frames_loop (xs @ ys) 0 [] \<and>
   grpc_frames_loop (xs @ ys) (int (length xs)) acc = acc @ grpc_frames ys"
  using grpc_frames_loop_shift [of 0 xs ys acc] by (simp add: grpc_frames_def)
















end
